theory Spec2Isabelle
  imports Main "HOL-Library.Multiset" "HOL-Library.Sublist"
begin

section \<open>The environment of the prober\<close>

text \<open>
  The two library calls of \<^verbatim>\<open>isProxyAvailable\<close> are parameters of the model:
  \<^verbatim>\<open>url.Parse\<close>, which fails (\<open>None\<close>) or yields a parsed URL, and \<^verbatim>\<open>client.Get\<close> of a
  client whose transport routes through the parsed proxy URL, which yields a transport
  error (time-outs included) or a response with a status code. The behaviour of the
  network is fixed during one run. Every request that is issued is appended to a log of
  pairs (proxy address, target URL).
\<close>

datatype response = TransportError | Status int

record 'u env =
  url_Parse :: "string \<Rightarrow> 'u option"
  client_Get :: "'u \<Rightarrow> string \<Rightarrow> response"

type_synonym request = "string \<times> string"

definition StatusOK :: int where
  "StatusOK = 200"

definition StatusNoContent :: int where
  "StatusNoContent = 204"

section \<open>isProxyAvailable\<close>

definition testURLs :: "(string \<times> int) list" where
  "testURLs =
     [(''https://www.google.com/generate_204'', StatusNoContent),
      (''https://raw.githubusercontent.com/github/gitignore/main/Go.gitignore'', StatusOK)]"

text \<open>
  One goroutine per target. It calls \<^verbatim>\<open>client.Get\<close> (\<open>Ready\<close>), then sends one boolean on
  the channel \<^verbatim>\<open>results\<close> (\<open>Got\<close>), then is finished (\<open>Done\<close>, after \<^verbatim>\<open>wg.Done()\<close>).
  The channel is buffered with one slot per target, so no send blocks.
\<close>

datatype worker = Ready string int | Got bool | Done

fun wstep :: "'u env \<Rightarrow> string \<Rightarrow> 'u \<Rightarrow> worker \<Rightarrow> worker \<times> bool list \<times> request list" where
  "wstep e proxy u (Ready target expect) =
     (case client_Get e u target of
        TransportError \<Rightarrow> (Got False, [], [(proxy, target)])
      | Status code \<Rightarrow> (Got (code = expect), [], [(proxy, target)]))"
| "wstep e proxy u (Got ok) = (Done, [ok], [])"
| "wstep e proxy u Done = (Done, [], [])"

definition pending :: "worker list \<Rightarrow> nat list" where
  "pending ws = filter (\<lambda>i. ws ! i \<noteq> Done) [0..<length ws]"

text \<open>
  The scheduler is a list of numbers: each step runs the pending goroutine the next number
  selects (the first pending one when the list is used up). Every interleaving of the
  goroutines is the run under some such list.
\<close>

definition pick :: "nat list \<Rightarrow> nat" where
  "pick sched = (case sched of [] \<Rightarrow> 0 | k # _ \<Rightarrow> k)"

definition pstep ::
  "'u env \<Rightarrow> string \<Rightarrow> 'u \<Rightarrow> nat \<Rightarrow> worker list \<Rightarrow> bool list \<Rightarrow>
     worker list \<times> bool list \<times> request list" where
  "pstep e proxy u k ws results =
     (let i = pending ws ! (k mod length (pending ws))
      in case wstep e proxy u (ws ! i) of
           (w, out, reqs) \<Rightarrow> (ws[i := w], results @ out, reqs))"

fun wcost :: "worker \<Rightarrow> nat" where
  "wcost (Ready target expect) = 2"
| "wcost (Got ok) = 1"
| "wcost Done = 0"

text \<open>\<^verbatim>\<open>wg.Wait()\<close>: the goroutines run until all are finished; then the channel is read.\<close>

function wait_workers ::
  "'u env \<Rightarrow> string \<Rightarrow> 'u \<Rightarrow> nat list \<Rightarrow> worker list \<Rightarrow> bool list \<Rightarrow> request list \<Rightarrow>
     bool list \<times> request list" where
  "wait_workers e proxy u sched ws results log =
     (if pending ws = [] then (results, log)
      else case pstep e proxy u (pick sched) ws results of
             (ws', results', reqs) \<Rightarrow>
               wait_workers e proxy u (tl sched) ws' results' (log @ reqs))"
  by pat_completeness auto
termination
proof -
  have upd: "j < length xs \<Longrightarrow> wcost w < wcost (xs ! j) \<Longrightarrow>
      sum_list (map wcost (xs[j := w])) < sum_list (map wcost xs)" for xs j w
  proof (induction xs arbitrary: j)
    case Nil
    then show ?case by simp
  next
    case (Cons a xs)
    then show ?case by (cases j) auto
  qed
  have dec: "sum_list (map wcost ws') < sum_list (map wcost ws)"
    if ne: "pending ws \<noteq> []" and st: "(ws', y) = pstep e proxy u k ws results"
    for ws ws' :: "worker list" and y and e :: "'a env" and proxy u k results
  proof -
    define i where "i = pending ws ! (k mod length (pending ws))"
    from ne have "i \<in> set (pending ws)"
      unfolding i_def by simp
    then have i: "i < length ws" and nd: "ws ! i \<noteq> Done"
      by (auto simp: pending_def)
    from st have ws': "ws' = ws[i := fst (wstep e proxy u (ws ! i))]"
      by (auto simp: pstep_def Let_def i_def split: prod.splits)
    from nd have "wcost (fst (wstep e proxy u (ws ! i))) < wcost (ws ! i)"
      by (cases "ws ! i") (auto split: response.splits)
    with i show ?thesis
      unfolding ws' by (rule upd)
  qed
  show ?thesis
    by (relation "measure (\<lambda>(e, proxy, u, sched, ws, results, log). sum_list (map wcost ws))")
      (auto intro: dec)
qed

declare wait_workers.simps [simp del]

text \<open>Reading the closed channel: \<^verbatim>\<open>for ok := range results { if !ok { return false } }\<close>.\<close>

fun drain :: "bool list \<Rightarrow> bool" where
  "drain [] = True"
| "drain (ok # rest) = (if \<not> ok then False else drain rest)"

definition spawn :: "(string \<times> int) list \<Rightarrow> worker list" where
  "spawn ts = map (\<lambda>(target, expect). Ready target expect) ts"

definition isProxyAvailable ::
  "'u env \<Rightarrow> nat list \<Rightarrow> string \<Rightarrow> request list \<Rightarrow> bool \<times> request list" where
  "isProxyAvailable e sched proxy log =
     (case url_Parse e proxy of
        None \<Rightarrow> (False, log)
      | Some proxyURL \<Rightarrow>
          (case wait_workers e proxy proxyURL sched (spawn testURLs) [] log of
             (results, log') \<Rightarrow> (drain results, log')))"

section \<open>findAvailableProxy\<close>

text \<open>
  One goroutine per candidate. It calls \<^verbatim>\<open>isProxyAvailable(p)\<close> (\<open>CStart\<close>), which parses
  the address and starts the goroutines of the probe; it waits for them (\<open>CProbing\<close>) and
  reads their results; if the verdict is true it offers \<open>p\<close> to \<^verbatim>\<open>resultCh\<close> in a
  \<^verbatim>\<open>select\<close> with a \<^verbatim>\<open>default\<close> branch (\<open>CSend\<close>); then it is finished (\<open>CDone\<close>).
\<close>

datatype 'u cand =
    CStart string
  | CProbing string 'u "worker list" "bool list"
  | CSend string
  | CDone

text \<open>
  \<^verbatim>\<open>resultCh\<close> has one buffer slot: a send succeeds when the slot is empty and is dropped
  (\<^verbatim>\<open>default\<close>) when it is full.
\<close>

fun cstep ::
  "'u env \<Rightarrow> nat \<Rightarrow> 'u cand \<Rightarrow> string option \<Rightarrow> 'u cand \<times> string option \<times> request list" where
  "cstep e k (CStart p) ch =
     (case url_Parse e p of
        None \<Rightarrow> (CDone, ch, [])
      | Some proxyURL \<Rightarrow> (CProbing p proxyURL (spawn testURLs) [], ch, []))"
| "cstep e k (CProbing p u ws results) ch =
     (if pending ws = [] then ((if drain results then CSend p else CDone), ch, [])
      else case pstep e p u k ws results of
             (ws', results', reqs) \<Rightarrow> (CProbing p u ws' results', ch, reqs))"
| "cstep e k (CSend p) ch = (CDone, (case ch of None \<Rightarrow> Some p | Some q \<Rightarrow> Some q), [])"
| "cstep e k CDone ch = (CDone, ch, [])"

record 'u rstate =
  cands :: "'u cand list"
  resultCh :: "string option"
  closed :: bool
  rlog :: "request list"

text \<open>
  The threads that can take a step: a candidate goroutine that is not finished; the
  goroutine that closes the channel, once \<^verbatim>\<open>wg.Wait()\<close> returns (all candidate goroutines
  finished); the caller, whose receive \<^verbatim>\<open><-resultCh\<close> blocks until the slot is full or the
  channel is closed.
\<close>

datatype action = Cand nat | Closer | Caller

definition enabled :: "'u rstate \<Rightarrow> action list" where
  "enabled st =
     map Cand (filter (\<lambda>i. cands st ! i \<noteq> CDone) [0..<length (cands st)]) @
     (if (\<forall>c\<in>set (cands st). c = CDone) \<and> \<not> closed st then [Closer] else []) @
     (if resultCh st \<noteq> None \<or> closed st then [Caller] else [])"

datatype 'u progress = Deadlock | Return string | Continue "'u rstate"

text \<open>
  One step of the race. The first number of the scheduler's choice selects the thread, the
  second the goroutine inside that candidate's probe. The caller's receive ends the run:
  it returns the proxy in the slot, or the empty string when the channel is closed and
  empty (\<^verbatim>\<open>ok\<close> is false).
\<close>

definition rstep :: "'u env \<Rightarrow> nat \<times> nat \<Rightarrow> 'u rstate \<Rightarrow> 'u progress" where
  "rstep e k st =
     (case enabled st of
        [] \<Rightarrow> Deadlock
      | a # as \<Rightarrow>
          (case (a # as) ! (fst k mod length (a # as)) of
             Caller \<Rightarrow> Return (case resultCh st of Some proxy \<Rightarrow> proxy | None \<Rightarrow> '''')
           | Closer \<Rightarrow> Continue (st\<lparr>closed := True\<rparr>)
           | Cand i \<Rightarrow>
               (case cstep e (snd k) (cands st ! i) (resultCh st) of
                  (c, ch, reqs) \<Rightarrow>
                    Continue (st\<lparr>cands := (cands st)[i := c], resultCh := ch,
                                  rlog := rlog st @ reqs\<rparr>))))"

definition pick2 :: "(nat \<times> nat) list \<Rightarrow> nat \<times> nat" where
  "pick2 sched = (case sched of [] \<Rightarrow> (0, 0) | k # _ \<Rightarrow> k)"

fun ccost :: "'u cand \<Rightarrow> nat" where
  "ccost (CStart p) = 2 * length testURLs + 3"
| "ccost (CProbing p u ws results) = sum_list (map wcost ws) + 2"
| "ccost (CSend p) = 1"
| "ccost CDone = 0"

definition rcost :: "'u rstate \<Rightarrow> nat" where
  "rcost st = sum_list (map ccost (cands st)) + (if closed st then 0 else 1)"

text \<open>
  The run of the race up to the caller's return, with the requests issued until then.
  \<open>None\<close> stands for a caller that is never woken.
\<close>

function race :: "'u env \<Rightarrow> (nat \<times> nat) list \<Rightarrow> 'u rstate \<Rightarrow> (string \<times> request list) option" where
  "race e sched st =
     (case rstep e (pick2 sched) st of
        Deadlock \<Rightarrow> None
      | Return proxy \<Rightarrow> Some (proxy, rlog st)
      | Continue st' \<Rightarrow> race e (tl sched) st')"
  by pat_completeness auto
termination
proof -
  have upd: "j < length xs \<Longrightarrow> ccost c < ccost (xs ! j) \<Longrightarrow>
      sum_list (map ccost (xs[j := c])) < sum_list (map ccost xs)"
    for xs :: "'a cand list" and j c
  proof (induction xs arbitrary: j)
    case Nil
    then show ?case by simp
  next
    case (Cons a xs)
    then show ?case by (cases j) auto
  qed
  have wupd: "j < length xs \<Longrightarrow> wcost w < wcost (xs ! j) \<Longrightarrow>
      sum_list (map wcost (xs[j := w])) < sum_list (map wcost xs)" for xs j w
  proof (induction xs arbitrary: j)
    case Nil
    then show ?case by simp
  next
    case (Cons a xs)
    then show ?case by (cases j) auto
  qed
  have pdec: "sum_list (map wcost ws') < sum_list (map wcost ws)"
    if ne: "pending ws \<noteq> []" and st: "pstep e p u k ws results = (ws', y)"
    for ws ws' :: "worker list" and y and e :: "'a env" and p u k results
  proof -
    define i where "i = pending ws ! (k mod length (pending ws))"
    from ne have "i \<in> set (pending ws)"
      unfolding i_def by simp
    then have i: "i < length ws" and nd: "ws ! i \<noteq> Done"
      by (auto simp: pending_def)
    from st have ws': "ws' = ws[i := fst (wstep e p u (ws ! i))]"
      by (auto simp: pstep_def Let_def i_def split: prod.splits)
    from nd have "wcost (fst (wstep e p u (ws ! i))) < wcost (ws ! i)"
      by (cases "ws ! i") (auto split: response.splits)
    with i show ?thesis
      unfolding ws' by (rule wupd)
  qed
  have spawn_cost: "sum_list (map wcost (spawn ts)) = 2 * length ts" for ts
    by (induction ts) (auto simp: spawn_def)
  have cdec: "ccost (fst (cstep e k c ch)) < ccost c" if "c \<noteq> CDone"
    for e :: "'a env" and k c ch
  proof (cases c)
    case (CStart p)
    then show ?thesis by (simp add: spawn_cost split: option.splits)
  next
    case (CProbing p u ws results)
    then show ?thesis by (auto split: prod.splits dest: pdec)
  next
    case (CSend p)
    then show ?thesis by simp
  next
    case CDone
    with that show ?thesis by simp
  qed
  have dec: "rcost st' < rcost st" if "rstep e k st = Continue st'"
    for e :: "'a env" and k st st'
  proof -
    from that obtain acts where acts: "enabled st = acts" "acts \<noteq> []"
      by (auto simp: rstep_def split: list.splits)
    define a where "a = acts ! (fst k mod length acts)"
    from acts have mem: "a \<in> set (enabled st)"
      unfolding a_def by simp
    show ?thesis
    proof (cases a)
      case (Cand i)
      with mem have i: "i < length (cands st)" and nd: "cands st ! i \<noteq> CDone"
        by (auto simp: enabled_def split: if_splits)
      from that acts Cand
      have st': "st' = st\<lparr>cands := (cands st)[i := fst (cstep e (snd k) (cands st ! i) (resultCh st))],
                           resultCh := fst (snd (cstep e (snd k) (cands st ! i) (resultCh st))),
                           rlog := rlog st @ snd (snd (cstep e (snd k) (cands st ! i) (resultCh st)))\<rparr>"
        by (auto simp: rstep_def a_def split: list.splits prod.splits)
      from upd [OF i cdec [OF nd]] show ?thesis
        by (simp add: st' rcost_def)
    next
      case Closer
      with mem have "\<not> closed st"
        by (auto simp: enabled_def split: if_splits)
      moreover from that acts Closer have "st' = st\<lparr>closed := True\<rparr>"
        by (auto simp: rstep_def a_def split: list.splits)
      ultimately show ?thesis
        by (simp add: rcost_def)
    next
      case Caller
      with that acts show ?thesis
        by (auto simp: rstep_def a_def split: list.splits)
    qed
  qed
  show ?thesis
    by (relation "measure (\<lambda>(e, sched, st). rcost st)") (auto intro: dec)
qed

declare race.simps [simp del]

definition start :: "string list \<Rightarrow> request list \<Rightarrow> 'u rstate" where
  "start candidates log =
     \<lparr>cands = map CStart candidates, resultCh = None, closed = False, rlog = log\<rparr>"

text \<open>
  The preferred address is probed by the caller itself, before any goroutine exists; the
  race starts only when that probe is skipped or fails.
\<close>

definition findAvailableProxy ::
  "'u env \<Rightarrow> nat list \<Rightarrow> (nat \<times> nat) list \<Rightarrow> string \<Rightarrow> string list \<Rightarrow> request list \<Rightarrow>
     (string \<times> request list) option" where
  "findAvailableProxy e psched rsched configProxy candidates log =
     (if configProxy \<noteq> '''' \<and> fst (isProxyAvailable e psched configProxy log)
      then Some (configProxy, snd (isProxyAvailable e psched configProxy log))
      else race e rsched
             (start candidates
                (if configProxy \<noteq> '''' then snd (isProxyAvailable e psched configProxy log)
                 else log)))"

section \<open>Extraction of the frontend archive in updateFrontend\<close>

text \<open>
  The loop over \<^verbatim>\<open>zipReader.File\<close>. The functions of \<^verbatim>\<open>path/filepath\<close> and the path
  separator depend on the platform and are parameters; so is the behaviour of the
  operating system, as an oracle that says which operation fails after which history.
  Every operation that is attempted is appended to a trace, next to the name of the entry
  it is attempted for. \<^verbatim>\<open>log.Fatalf\<close> ends the program: the result is then the error with
  the trace up to that point.
\<close>

record zipentry =
  Name :: string
  IsDir :: bool

datatype fsop = MkdirAll string | OpenFile string | OpenEntry string | Copy string

datatype fatal = IllegalPath string | MkdirFailed | CreateFailed | OpenEntryFailed | CopyFailed

type_synonym trace = "(string \<times> fsop) list"

record osenv =
  filepath_Join :: "string \<Rightarrow> string \<Rightarrow> string"
  filepath_Clean :: "string \<Rightarrow> string"
  filepath_Dir :: "string \<Rightarrow> string"
  PathSeparator :: char
  fails :: "trace \<Rightarrow> fsop \<Rightarrow> bool"

definition tmpDir :: string where
  "tmpDir = ''dist_temp''"

definition HasPrefix :: "string \<Rightarrow> string \<Rightarrow> bool" where
  "HasPrefix s pre = prefix pre s"

fun updateFrontend_extract :: "osenv \<Rightarrow> zipentry list \<Rightarrow> trace \<Rightarrow> fatal \<times> trace + trace" where
  "updateFrontend_extract os [] tr = Inr tr"
| "updateFrontend_extract os (f # fs) tr =
     (let fpath = filepath_Join os tmpDir (Name f) in
      if \<not> HasPrefix fpath (filepath_Clean os tmpDir @ [PathSeparator os])
      then Inl (IllegalPath fpath, tr)
      else if IsDir f then updateFrontend_extract os fs (tr @ [(Name f, MkdirAll fpath)])
      else
        let tr1 = tr @ [(Name f, MkdirAll (filepath_Dir os fpath))] in
        if fails os tr (MkdirAll (filepath_Dir os fpath)) then Inl (MkdirFailed, tr1)
        else
          let tr2 = tr1 @ [(Name f, OpenFile fpath)] in
          if fails os tr1 (OpenFile fpath) then Inl (CreateFailed, tr2)
          else
            let tr3 = tr2 @ [(Name f, OpenEntry (Name f))] in
            if fails os tr2 (OpenEntry (Name f)) then Inl (OpenEntryFailed, tr3)
            else
              let tr4 = tr3 @ [(Name f, Copy fpath)] in
              if fails os tr3 (Copy fpath) then Inl (CopyFailed, tr4)
              else updateFrontend_extract os fs tr4)"

section \<open>Auxiliary notions for the proofs\<close>

text \<open>What a goroutine of the probe will still send, and which requests it will still issue.\<close>

fun outcome :: "'u env \<Rightarrow> 'u \<Rightarrow> worker \<Rightarrow> bool list" where
  "outcome e u (Ready target expect) = [client_Get e u target = Status expect]"
| "outcome e u (Got ok) = [ok]"
| "outcome e u Done = []"

fun requests :: "string \<Rightarrow> worker \<Rightarrow> request list" where
  "requests proxy (Ready target expect) = [(proxy, target)]"
| "requests proxy (Got ok) = []"
| "requests proxy Done = []"

text \<open>
  The availability verdict of an address under the fixed network behaviour: the address
  parses and every probe target answers with its expected status code.
\<close>

definition available :: "'u env \<Rightarrow> string \<Rightarrow> bool" where
  "available e proxy =
     (case url_Parse e proxy of
        None \<Rightarrow> False
      | Some u \<Rightarrow> list_all (\<lambda>(target, expect). client_Get e u target = Status expect) testURLs)"

text \<open>
  Invariants of the race. \<open>pall\<close>: every outcome already in the channel of a probe, and
  every outcome still to come, is a success. \<open>cinv\<close>: a candidate goroutine works on an
  address of the pool, and the probe it is in agrees with the availability of that address.
  \<open>cfut\<close>: the goroutine will still offer its address to \<^verbatim>\<open>resultCh\<close>.
\<close>

definition pall :: "'u env \<Rightarrow> 'u \<Rightarrow> worker list \<Rightarrow> bool list \<Rightarrow> bool" where
  "pall e u ws results = (\<forall>b\<in>set results \<union> set (concat (map (outcome e u) ws)). b)"

fun cinv :: "'u env \<Rightarrow> string set \<Rightarrow> 'u cand \<Rightarrow> bool" where
  "cinv e S (CStart p) = (p \<in> S)"
| "cinv e S (CProbing p u ws results) =
     (p \<in> S \<and> url_Parse e p = Some u \<and> (pall e u ws results \<longleftrightarrow> available e p))"
| "cinv e S (CSend p) = (p \<in> S \<and> available e p)"
| "cinv e S CDone = True"

fun cfut :: "'u env \<Rightarrow> 'u cand \<Rightarrow> bool" where
  "cfut e (CStart p) = available e p"
| "cfut e (CProbing p u ws results) = pall e u ws results"
| "cfut e (CSend p) = True"
| "cfut e CDone = False"

definition rinv :: "'u env \<Rightarrow> string set \<Rightarrow> 'u rstate \<Rightarrow> bool" where
  "rinv e S st \<longleftrightarrow>
     (\<forall>c\<in>set (cands st). cinv e S c) \<and>
     (\<forall>p. resultCh st = Some p \<longrightarrow> p \<in> S \<and> available e p) \<and>
     (closed st \<longrightarrow> (\<forall>c\<in>set (cands st). c = CDone)) \<and>
     ((\<exists>p\<in>S. available e p) \<longrightarrow> resultCh st \<noteq> None \<or> (\<exists>c\<in>set (cands st). cfut e c))"

text \<open>
  An environment for concrete runs: one address does not parse, two proxies answer both
  targets as expected, one answers 200 to everything, all others refuse the connection.
  \<open>commonProxies\<close> is the candidate list of \<^verbatim>\<open>main\<close>.
\<close>

definition example_env :: "string env" where
  "example_env =
     \<lparr>url_Parse = (\<lambda>s. if s = ''http://[::1'' then None else Some s),
      client_Get = (\<lambda>u target.
        if u = ''http://127.0.0.1:7890'' \<or> u = ''http://127.0.0.1:10809'' then
          (if target = ''https://www.google.com/generate_204'' then Status 204 else Status 200)
        else if u = ''http://127.0.0.1:8080'' then Status 200
        else TransportError)\<rparr>"


definition commonProxies :: "string list" where
  "commonProxies =
     [''http://127.0.0.1:7890'', ''http://127.0.0.1:7891'', ''http://127.0.0.1:1080'',
      ''http://127.0.0.1:8080'', ''http://127.0.0.1:10808'', ''http://127.0.0.1:10809'']"

text \<open>
  The check of the loop, as a predicate on the name of an entry: the joined path starts
  with the cleaned temporary directory followed by the separator.
\<close>

definition within :: "osenv \<Rightarrow> string \<Rightarrow> bool" where
  "within os name =
     HasPrefix (filepath_Join os tmpDir name) (filepath_Clean os tmpDir @ [PathSeparator os])"

fun trace_of :: "fatal \<times> trace + trace \<Rightarrow> trace" where
  "trace_of (Inl (err, tr)) = tr"
| "trace_of (Inr tr) = tr"

text \<open>
  An instance of the platform for concrete runs: paths with the separator \<open>/\<close>, cleaned by
  the lexical rules that the documentation of \<^verbatim>\<open>path/filepath\<close> gives for \<^verbatim>\<open>Clean\<close>
  (empty and \<open>.\<close> elements dropped, an inner \<open>..\<close> removed together with the element
  before it, \<open>..\<close> dropped at the root), and an operating system on which nothing fails.
\<close>

fun split_path :: "string \<Rightarrow> string list" where
  "split_path [] = [[]]"
| "split_path (c # cs) =
     (if c = CHR ''/'' then [] # split_path cs
      else case split_path cs of [] \<Rightarrow> [[c]] | x # xs \<Rightarrow> (c # x) # xs)"

fun join_path :: "string list \<Rightarrow> string" where
  "join_path [] = []"
| "join_path [x] = x"
| "join_path (x # y # ys) = x @ ''/'' @ join_path (y # ys)"

fun clean_elems :: "bool \<Rightarrow> string list \<Rightarrow> string list \<Rightarrow> string list" where
  "clean_elems rooted out [] = rev out"
| "clean_elems rooted out (x # xs) =
     (if x = [] \<or> x = ''.'' then clean_elems rooted out xs
      else if x = ''..'' then
        (case out of
           [] \<Rightarrow> if rooted then clean_elems rooted out xs else clean_elems rooted [x] xs
         | y # ys \<Rightarrow>
             if y = ''..'' then clean_elems rooted (x # out) xs else clean_elems rooted ys xs)
      else clean_elems rooted (x # out) xs)"

definition unix_Clean :: "string \<Rightarrow> string" where
  "unix_Clean path =
     (let rooted = (path \<noteq> [] \<and> hd path = CHR ''/'');
          s = join_path (clean_elems rooted [] (split_path path))
      in if rooted then CHR ''/'' # s else if s = [] then ''.'' else s)"

definition unix_Join :: "string \<Rightarrow> string \<Rightarrow> string" where
  "unix_Join a b =
     (if a = [] \<and> b = [] then []
      else unix_Clean (join_path (filter (\<lambda>x. x \<noteq> []) [a, b])))"

definition unix_Dir :: "string \<Rightarrow> string" where
  "unix_Dir path = unix_Clean (take (length path - length (last (split_path path))) path)"

definition unix_os :: osenv where
  "unix_os =
     \<lparr>filepath_Join = unix_Join, filepath_Clean = unix_Clean, filepath_Dir = unix_Dir,
      PathSeparator = CHR ''/'', fails = (\<lambda>tr op. False)\<rparr>"

definition example_archive :: "zipentry list" where
  "example_archive =
     [\<lparr>Name = ''dist/'', IsDir = True\<rparr>,
      \<lparr>Name = ''dist/index.html'', IsDir = False\<rparr>,
      \<lparr>Name = ''dist/../../evil.sh'', IsDir = False\<rparr>,
      \<lparr>Name = ''dist/app.js'', IsDir = False\<rparr>]"

section \<open>Properties of isProxyAvailable\<close>

lemma drain_iff: "drain bs \<longleftrightarrow> (\<forall>b\<in>set bs. b)"
  by (induction bs) auto

lemma pending_Nil_iff: "pending ws = [] \<longleftrightarrow> (\<forall>w\<in>set ws. w = Done)"
  by (auto simp: pending_def filter_empty_conv set_conv_nth)

lemma pending_nth:
  assumes "pending ws \<noteq> []"
  shows "pending ws ! (k mod length (pending ws)) < length ws"
    and "ws ! (pending ws ! (k mod length (pending ws))) \<noteq> Done"
proof -
  from assms have "pending ws ! (k mod length (pending ws)) \<in> set (pending ws)"
    by simp
  then show "pending ws ! (k mod length (pending ws)) < length ws"
    and "ws ! (pending ws ! (k mod length (pending ws))) \<noteq> Done"
    by (auto simp: pending_def)
qed

lemma mset_concat_update:
  "i < length ws \<Longrightarrow>
     mset (concat (map f (ws[i := w]))) + mset (f (ws ! i)) = mset (concat (map f ws)) + mset (f w)"
proof (induction ws arbitrary: i)
  case Nil
  then show ?case by simp
next
  case (Cons a ws)
  show ?case
  proof (cases i)
    case 0
    then show ?thesis by simp
  next
    case (Suc j)
    with Cons.prems have "j < length ws" by simp
    from Cons.IH [OF this] Suc show ?thesis by simp
  qed
qed

lemma wstep_outcome:
  "wstep e proxy u w = (w', out, reqs) \<Longrightarrow> w \<noteq> Done \<Longrightarrow>
     mset (outcome e u w) = mset out + mset (outcome e u w')"
  by (cases w) (auto split: response.splits)

lemma wstep_requests:
  "wstep e proxy u w = (w', out, reqs) \<Longrightarrow>
     mset (requests proxy w) = mset reqs + mset (requests proxy w')"
  by (cases w) (auto split: response.splits)

lemma pstep_outcome:
  assumes "pending ws \<noteq> []" and "pstep e proxy u k ws results = (ws', results', reqs)"
  shows "mset results' + mset (concat (map (outcome e u) ws')) =
         mset results + mset (concat (map (outcome e u) ws))"
proof -
  define i where "i = pending ws ! (k mod length (pending ws))"
  from assms(1) have i: "i < length ws" and nd: "ws ! i \<noteq> Done"
    unfolding i_def by (rule pending_nth)+
  obtain w out where w: "wstep e proxy u (ws ! i) = (w, out, reqs)"
    and ws': "ws' = ws[i := w]" and rs': "results' = results @ out"
    using assms(2) by (auto simp: pstep_def Let_def i_def split: prod.splits)
  from wstep_outcome [OF w nd] mset_concat_update [OF i, of "outcome e u" w]
  show ?thesis
    by (simp add: ws' rs' ac_simps)
qed

lemma pstep_requests:
  assumes "pending ws \<noteq> []" and "pstep e proxy u k ws results = (ws', results', reqs)"
  shows "mset reqs + mset (concat (map (requests proxy) ws')) =
         mset (concat (map (requests proxy) ws))"
proof -
  define i where "i = pending ws ! (k mod length (pending ws))"
  from assms(1) have i: "i < length ws"
    unfolding i_def by (rule pending_nth)
  obtain w out where w: "wstep e proxy u (ws ! i) = (w, out, reqs)"
    and ws': "ws' = ws[i := w]"
    using assms(2) by (auto simp: pstep_def Let_def i_def split: prod.splits)
  from wstep_requests [OF w] mset_concat_update [OF i, of "requests proxy" w]
  show ?thesis
    by (simp add: ws' ac_simps)
qed

lemma wait_workers_results:
  "mset (fst (wait_workers e proxy u sched ws results log)) =
     mset results + mset (concat (map (outcome e u) ws))"
proof (induction e proxy u sched ws results log rule: wait_workers.induct)
  case (1 e proxy u sched ws results log)
  show ?case
  proof (cases "pending ws = []")
    case True
    then have "concat (map (outcome e u) ws) = []"
      by (auto simp: pending_Nil_iff)
    with True show ?thesis by (simp add: wait_workers.simps [of e proxy u sched ws])
  next
    case False
    obtain ws' results' reqs
      where st: "pstep e proxy u (pick sched) ws results = (ws', results', reqs)"
      by (cases "pstep e proxy u (pick sched) ws results") auto
    from "1.IH" [OF False st [symmetric] refl] pstep_outcome [OF False st] False st
    show ?thesis by (simp add: wait_workers.simps [of e proxy u sched ws])
  qed
qed

lemma wait_workers_log:
  "\<exists>reqs. snd (wait_workers e proxy u sched ws results log) = log @ reqs \<and>
     mset reqs = mset (concat (map (requests proxy) ws))"
proof (induction e proxy u sched ws results log rule: wait_workers.induct)
  case (1 e proxy u sched ws results log)
  show ?case
  proof (cases "pending ws = []")
    case True
    then have "concat (map (requests proxy) ws) = []"
      by (auto simp: pending_Nil_iff)
    with True show ?thesis by (simp add: wait_workers.simps [of e proxy u sched ws])
  next
    case False
    obtain ws' results' reqs
      where st: "pstep e proxy u (pick sched) ws results = (ws', results', reqs)"
      by (cases "pstep e proxy u (pick sched) ws results") auto
    from "1.IH" [OF False st [symmetric] refl] obtain more
      where more: "snd (wait_workers e proxy u (tl sched) ws' results' (log @ reqs)) =
                     (log @ reqs) @ more"
        and ms: "mset more = mset (concat (map (requests proxy) ws'))"
      by blast
    from more False st
    have "snd (wait_workers e proxy u sched ws results log) = log @ (reqs @ more)"
      by (simp add: wait_workers.simps [of e proxy u sched ws])
    moreover from ms pstep_requests [OF False st]
    have "mset (reqs @ more) = mset (concat (map (requests proxy) ws))"
      by simp
    ultimately show ?thesis by blast
  qed
qed

lemma outcome_spawn:
  "concat (map (outcome e u) (spawn ts)) = map (\<lambda>(target, expect). client_Get e u target = Status expect) ts"
  by (induction ts) (auto simp: spawn_def)

lemma requests_spawn:
  "concat (map (requests proxy) (spawn ts)) = map (\<lambda>(target, expect). (proxy, target)) ts"
  by (induction ts) (auto simp: spawn_def)

lemma isProxyAvailable_available:
  "fst (isProxyAvailable e sched proxy log) = available e proxy"
proof (cases "url_Parse e proxy")
  case None
  then show ?thesis by (simp add: isProxyAvailable_def available_def)
next
  case (Some u)
  have "fst (isProxyAvailable e sched proxy log) =
        drain (fst (wait_workers e proxy u sched (spawn testURLs) [] log))"
    using Some by (simp add: isProxyAvailable_def split: prod.splits)
  also have "\<dots> \<longleftrightarrow>
      (\<forall>b\<in>#mset (fst (wait_workers e proxy u sched (spawn testURLs) [] log)). b)"
    by (simp add: drain_iff)
  also have "\<dots> \<longleftrightarrow> available e proxy"
    unfolding wait_workers_results outcome_spawn using Some
    by (auto simp: available_def list_all_iff)
  finally show ?thesis .
qed

lemma isProxyAvailable_log:
  "\<exists>reqs. snd (isProxyAvailable e sched proxy log) = log @ reqs \<and>
     mset reqs = (case url_Parse e proxy of
                    None \<Rightarrow> {#}
                  | Some u \<Rightarrow> mset (map (\<lambda>(target, expect). (proxy, target)) testURLs))"
proof (cases "url_Parse e proxy")
  case None
  then show ?thesis by (simp add: isProxyAvailable_def)
next
  case (Some u)
  from wait_workers_log [of e proxy u sched "spawn testURLs" "[]" log] Some
  show ?thesis
    by (auto simp: isProxyAvailable_def requests_spawn split: prod.splits)
qed

section \<open>Claims about isProxyAvailable\<close>

text \<open>
  Claim C1. For every proxy address, under every schedule of the probe's goroutines,
  \<open>isProxyAvailable\<close> returns true if and only if the address parses and the request to
  every configured target comes back without transport error and with that target's
  expected status code; one failing target makes the verdict false.
\<close>

theorem isProxyAvailable_iff:
  "fst (isProxyAvailable e sched proxy log) \<longleftrightarrow>
     (\<exists>u. url_Parse e proxy = Some u \<and>
          (\<forall>(target, expect)\<in>set testURLs. client_Get e u target = Status expect))"
  unfolding isProxyAvailable_available available_def
  by (auto simp: list_all_iff split: option.splits)

theorem isProxyAvailable_iff_witness:
  "fst (isProxyAvailable example_env [1, 0] ''http://127.0.0.1:7890'' []) \<and>
   \<not> fst (isProxyAvailable example_env [1, 0] ''http://127.0.0.1:8080'' []) \<and>
   \<not> fst (isProxyAvailable example_env [] ''http://127.0.0.1:1080'' [])"
  using isProxyAvailable_iff [of example_env "[1, 0]" "''http://127.0.0.1:7890''" "[]"]
    isProxyAvailable_iff [of example_env "[1, 0]" "''http://127.0.0.1:8080''" "[]"]
    isProxyAvailable_iff [of example_env "[]" "''http://127.0.0.1:1080''" "[]"]
  by (simp add: example_env_def testURLs_def StatusOK_def StatusNoContent_def)

text \<open>
  Claim C5. For an address that \<^verbatim>\<open>url.Parse\<close> rejects, \<open>isProxyAvailable\<close> returns false
  and the request log is unchanged: no request is issued to any target.
\<close>

theorem malformed_address:
  "url_Parse e proxy = None \<Longrightarrow> isProxyAvailable e sched proxy log = (False, log)"
  by (simp add: isProxyAvailable_def)

theorem malformed_address_witness:
  "url_Parse example_env ''http://[::1'' = None \<and>
   isProxyAvailable example_env [0, 1] ''http://[::1'' [(''p'', ''t'')] = (False, [(''p'', ''t'')])"
  using malformed_address [of example_env "''http://[::1''" "[0, 1]" "[(''p'', ''t'')]"]
  by (simp add: example_env_def)

text \<open>
  Claim C6. For an address that parses, the verdict is computed from the channel only
  after \<^verbatim>\<open>wg.Wait()\<close> has returned: whatever the schedule and whatever the outcomes, by
  then one request per configured target has been issued and one outcome per target is
  in the channel, also when the first outcome is a failure.
\<close>

theorem waits_for_all_probes:
  assumes "url_Parse e proxy = Some u"
  shows "\<exists>results reqs.
           wait_workers e proxy u sched (spawn testURLs) [] log = (results, log @ reqs) \<and>
           isProxyAvailable e sched proxy log = (drain results, log @ reqs) \<and>
           mset results =
             mset (map (\<lambda>(target, expect). client_Get e u target = Status expect) testURLs) \<and>
           mset reqs = mset (map (\<lambda>(target, expect). (proxy, target)) testURLs) \<and>
           length results = length testURLs \<and> length reqs = length testURLs"
proof -
  obtain results log'
    where w: "wait_workers e proxy u sched (spawn testURLs) [] log = (results, log')"
    by (cases "wait_workers e proxy u sched (spawn testURLs) [] log") auto
  from wait_workers_log [of e proxy u sched "spawn testURLs" "[]" log] w
  obtain reqs where l: "log' = log @ reqs"
    and mr: "mset reqs = mset (map (\<lambda>(target, expect). (proxy, target)) testURLs)"
    by (auto simp: requests_spawn)
  from wait_workers_results [of e proxy u sched "spawn testURLs" "[]" log] w
  have ms: "mset results =
      mset (map (\<lambda>(target, expect). client_Get e u target = Status expect) testURLs)"
    by (simp add: outcome_spawn)
  from ms have lr: "length results = length testURLs"
    by (metis length_map size_mset)
  from mr have lq: "length reqs = length testURLs"
    by (metis length_map size_mset)
  from assms w l have "isProxyAvailable e sched proxy log = (drain results, log @ reqs)"
    by (simp add: isProxyAvailable_def)
  with w l ms mr lr lq show ?thesis by blast
qed

theorem waits_for_all_probes_witness:
  "url_Parse example_env ''http://127.0.0.1:8080'' = Some ''http://127.0.0.1:8080'' \<and>
   (\<exists>results reqs.
      isProxyAvailable example_env [0, 0] ''http://127.0.0.1:8080'' [] = (drain results, reqs) \<and>
      mset results = {#False, True#} \<and>
      mset reqs = {#(''http://127.0.0.1:8080'', ''https://www.google.com/generate_204''), (''http://127.0.0.1:8080'', ''https://raw.githubusercontent.com/github/gitignore/main/Go.gitignore'')#})"
proof -
  have p: "url_Parse example_env ''http://127.0.0.1:8080'' = Some ''http://127.0.0.1:8080''"
    by (simp add: example_env_def)
  have g: "client_Get example_env ''http://127.0.0.1:8080'' ''https://www.google.com/generate_204'' = Status 200"
    and r: "client_Get example_env ''http://127.0.0.1:8080'' ''https://raw.githubusercontent.com/github/gitignore/main/Go.gitignore'' = Status 200"
    by (simp_all add: example_env_def)
  from waits_for_all_probes [OF p, of "[0, 0]" "[]"] g r have
    "\<exists>results reqs.
      isProxyAvailable example_env [0, 0] ''http://127.0.0.1:8080'' [] = (drain results, reqs) \<and>
      mset results = {#False, True#} \<and>
      mset reqs = {#(''http://127.0.0.1:8080'', ''https://www.google.com/generate_204''), (''http://127.0.0.1:8080'', ''https://raw.githubusercontent.com/github/gitignore/main/Go.gitignore'')#}"
    by (auto simp: testURLs_def StatusOK_def StatusNoContent_def)
  with p show ?thesis by blast
qed

text \<open>
  Claim C7. The configured targets are exactly two: the \<^verbatim>\<open>generate_204\<close> connectivity
  check, expected to answer 204, and a file on the raw-file host
  \<^verbatim>\<open>raw.githubusercontent.com\<close>, expected to answer 200; a probe of an address that parses
  issues one request to each of the two and no other request.
\<close>

theorem probe_targets:
  "testURLs = [(''https://www.google.com/generate_204'', 204), (''https://raw.githubusercontent.com/github/gitignore/main/Go.gitignore'', 200)] \<and>
   (url_Parse e proxy = Some u \<longrightarrow>
      (\<exists>reqs. snd (isProxyAvailable e sched proxy log) = log @ reqs \<and>
              mset reqs = {#(proxy, ''https://www.google.com/generate_204''), (proxy, ''https://raw.githubusercontent.com/github/gitignore/main/Go.gitignore'')#}))"
proof -
  have t: "testURLs = [(''https://www.google.com/generate_204'', 204), (''https://raw.githubusercontent.com/github/gitignore/main/Go.gitignore'', 200)]"
    by (simp add: testURLs_def StatusOK_def StatusNoContent_def)
  from isProxyAvailable_log [of e sched proxy log]
  have "url_Parse e proxy = Some u \<longrightarrow>
      (\<exists>reqs. snd (isProxyAvailable e sched proxy log) = log @ reqs \<and>
              mset reqs = {#(proxy, ''https://www.google.com/generate_204''), (proxy, ''https://raw.githubusercontent.com/github/gitignore/main/Go.gitignore'')#})"
    by (auto simp: t)
  with t show ?thesis by blast
qed

theorem probe_targets_witness:
  "testURLs = [(''https://www.google.com/generate_204'', 204), (''https://raw.githubusercontent.com/github/gitignore/main/Go.gitignore'', 200)] \<and>
   (\<exists>reqs. snd (isProxyAvailable example_env [1, 1, 0] ''http://127.0.0.1:7890'' []) = reqs \<and>
           mset reqs = {#(''http://127.0.0.1:7890'', ''https://www.google.com/generate_204''), (''http://127.0.0.1:7890'', ''https://raw.githubusercontent.com/github/gitignore/main/Go.gitignore'')#})"
  using probe_targets [of example_env "''http://127.0.0.1:7890''" "''http://127.0.0.1:7890''"
      "[1, 1, 0]" "[]"]
  by (simp add: example_env_def)

text \<open>
  Claim C8. Under one fixed network behaviour the verdict for an address is the same in
  every call: it depends neither on the schedule nor on what was requested before, a
  second call after the first returns the same verdict, and the only effect of a call is
  that its requests are appended to the log.
\<close>

theorem prober_idempotent:
  "fst (isProxyAvailable e sched2 proxy log2) = fst (isProxyAvailable e sched1 proxy log1) \<and>
   fst (isProxyAvailable e sched2 proxy (snd (isProxyAvailable e sched1 proxy log1))) =
     fst (isProxyAvailable e sched1 proxy log1) \<and>
   (\<exists>reqs. snd (isProxyAvailable e sched1 proxy log1) = log1 @ reqs)"
  using isProxyAvailable_log [of e sched1 proxy log1]
  by (auto simp: isProxyAvailable_available)

section \<open>Properties of the race\<close>

lemma pall_pstep:
  assumes "pending ws \<noteq> []" and "pstep e proxy u k ws results = (ws', results', reqs)"
  shows "pall e u ws' results' = pall e u ws results"
proof -
  from pstep_outcome [OF assms]
  have "set_mset (mset results' + mset (concat (map (outcome e u) ws'))) =
        set_mset (mset results + mset (concat (map (outcome e u) ws)))"
    by simp
  then show ?thesis
    by (simp add: pall_def)
qed

lemma pall_spawn:
  "url_Parse e p = Some u \<Longrightarrow> pall e u (spawn testURLs) [] = available e p"
  by (auto simp: pall_def outcome_spawn available_def list_all_iff)

lemma pall_finished:
  "pending ws = [] \<Longrightarrow> pall e u ws results = drain results"
  by (auto simp: pall_def pending_Nil_iff drain_iff)

lemma cstep_inv:
  assumes "cinv e S c" and "cstep e k c ch = (c', ch', reqs)"
  shows "cinv e S c'"
    and "ch' = ch \<or> (ch = None \<and> (\<exists>p. c = CSend p \<and> ch' = Some p))"
    and "cfut e c \<Longrightarrow> cfut e c' \<or> ch' \<noteq> None"
proof -
  show "cinv e S c'"
  proof (cases c)
    case (CStart p)
    with assms show ?thesis
      by (auto simp: pall_spawn split: option.splits)
  next
    case (CProbing p u ws results)
    with assms show ?thesis
      by (auto simp: pall_pstep pall_finished split: if_splits prod.splits)
  next
    case (CSend p)
    with assms show ?thesis by auto
  next
    case CDone
    with assms show ?thesis by auto
  qed
  show "ch' = ch \<or> (ch = None \<and> (\<exists>p. c = CSend p \<and> ch' = Some p))"
    using assms(2) by (cases c) (auto split: option.splits if_splits prod.splits)
  show "cfut e c' \<or> ch' \<noteq> None" if "cfut e c"
  proof (cases c)
    case (CStart p)
    with assms that show ?thesis
      by (auto simp: pall_spawn available_def split: option.splits)
  next
    case (CProbing p u ws results)
    with assms that show ?thesis
      by (auto simp: pall_pstep pall_finished split: if_splits prod.splits)
  next
    case (CSend p)
    with assms show ?thesis by (auto split: option.splits)
  next
    case CDone
    with that show ?thesis by simp
  qed
qed

lemma enabled_nonempty: "enabled st \<noteq> []"
proof (cases "\<forall>c\<in>set (cands st). c = CDone")
  case True
  then show ?thesis by (simp add: enabled_def)
next
  case False
  then obtain i where "i < length (cands st)" "cands st ! i \<noteq> CDone"
    by (auto simp: set_conv_nth)
  then have "filter (\<lambda>i. cands st ! i \<noteq> CDone) [0..<length (cands st)] \<noteq> []"
    by (auto simp: filter_empty_conv)
  then show ?thesis by (simp add: enabled_def)
qed

lemma rstep_cases:
  obtains
    (Cand) i c ch reqs where "Cand i \<in> set (enabled st)"
      and "cstep e (snd k) (cands st ! i) (resultCh st) = (c, ch, reqs)"
      and "rstep e k st =
           Continue (st\<lparr>cands := (cands st)[i := c], resultCh := ch, rlog := rlog st @ reqs\<rparr>)"
  | (Closer) "Closer \<in> set (enabled st)" and "rstep e k st = Continue (st\<lparr>closed := True\<rparr>)"
  | (Caller) "Caller \<in> set (enabled st)"
      and "rstep e k st = Return (case resultCh st of Some proxy \<Rightarrow> proxy | None \<Rightarrow> '''')"
proof -
  define a where "a = enabled st ! (fst k mod length (enabled st))"
  have mem: "a \<in> set (enabled st)"
    unfolding a_def using enabled_nonempty [of st] by simp
  obtain b bs where ne: "enabled st = b # bs"
    using enabled_nonempty [of st] by (cases "enabled st") auto
  show thesis
  proof (cases a)
    case (Cand i)
    obtain c ch reqs where "cstep e (snd k) (cands st ! i) (resultCh st) = (c, ch, reqs)"
      by (cases "cstep e (snd k) (cands st ! i) (resultCh st)") auto
    with Cand mem ne that(1) [of i c ch reqs] show ?thesis
      by (simp add: rstep_def a_def)
  next
    case Closer
    with mem ne that(2) show ?thesis
      by (simp add: rstep_def a_def)
  next
    case Caller
    with mem ne that(3) show ?thesis
      by (simp add: rstep_def a_def)
  qed
qed

lemma enabled_Cand:
  "Cand i \<in> set (enabled st) \<Longrightarrow> i < length (cands st) \<and> cands st ! i \<noteq> CDone"
  by (auto simp: enabled_def split: if_splits)

lemma enabled_Closer:
  "Closer \<in> set (enabled st) \<Longrightarrow> (\<forall>c\<in>set (cands st). c = CDone) \<and> \<not> closed st"
  by (auto simp: enabled_def split: if_splits)

lemma enabled_Caller:
  "Caller \<in> set (enabled st) \<Longrightarrow> resultCh st \<noteq> None \<or> closed st"
  by (auto simp: enabled_def split: if_splits)

lemma rstep_not_Deadlock: "rstep e k st \<noteq> Deadlock"
  by (rule rstep_cases [of st e k]) auto

lemma rstep_inv:
  assumes inv: "rinv e S st" and step: "rstep e k st = Continue st'"
  shows "rinv e S st'"
proof (rule rstep_cases [of st e k])
  fix i c ch reqs
  assume en: "Cand i \<in> set (enabled st)"
    and cs: "cstep e (snd k) (cands st ! i) (resultCh st) = (c, ch, reqs)"
    and rs: "rstep e k st =
      Continue (st\<lparr>cands := (cands st)[i := c], resultCh := ch, rlog := rlog st @ reqs\<rparr>)"
  from en have i: "i < length (cands st)" and nd: "cands st ! i \<noteq> CDone"
    by (auto dest: enabled_Cand)
  from step rs
  have st': "st' = st\<lparr>cands := (cands st)[i := c], resultCh := ch, rlog := rlog st @ reqs\<rparr>"
    by simp
  from inv i have ci: "cinv e S (cands st ! i)"
    by (simp add: rinv_def)
  note facts = cstep_inv [OF ci cs]
  have 1: "\<forall>d\<in>set (cands st'). cinv e S d"
  proof
    fix d assume "d \<in> set (cands st')"
    then have "d = c \<or> d \<in> set (cands st)"
      using set_update_subset_insert [of "cands st" i c] by (auto simp: st')
    with facts(1) inv show "cinv e S d"
      by (auto simp: rinv_def)
  qed
  have 2: "\<forall>p. resultCh st' = Some p \<longrightarrow> p \<in> S \<and> available e p"
  proof (intro allI impI)
    fix p assume p: "resultCh st' = Some p"
    from facts(2) show "p \<in> S \<and> available e p"
    proof
      assume "ch = resultCh st"
      with p inv show ?thesis by (simp add: st' rinv_def)
    next
      assume "resultCh st = None \<and> (\<exists>q. cands st ! i = CSend q \<and> ch = Some q)"
      with p ci show ?thesis by (auto simp: st')
    qed
  qed
  from inv i nd have nc: "\<not> closed st"
    by (auto simp: rinv_def)
  then have 3: "closed st' \<longrightarrow> (\<forall>d\<in>set (cands st'). d = CDone)"
    by (simp add: st')
  have 4: "(\<exists>p\<in>S. available e p) \<longrightarrow>
           resultCh st' \<noteq> None \<or> (\<exists>d\<in>set (cands st'). cfut e d)"
  proof
    assume "\<exists>p\<in>S. available e p"
    with inv consider "resultCh st \<noteq> None" | j where "j < length (cands st)" "cfut e (cands st ! j)"
      by (auto simp: rinv_def set_conv_nth)
    then show "resultCh st' \<noteq> None \<or> (\<exists>d\<in>set (cands st'). cfut e d)"
    proof cases
      case 1
      with facts(2) show ?thesis by (auto simp: st')
    next
      case (2 j)
      show ?thesis
      proof (cases "j = i")
        case True
        with 2 facts(3) have "cfut e c \<or> ch \<noteq> None" by simp
        moreover from i have "c \<in> set (cands st')"
          by (simp add: st' set_update_memI)
        ultimately show ?thesis by (auto simp: st')
      next
        case False
        with 2 i have "cands st' ! j = cands st ! j" "j < length (cands st')"
          by (simp_all add: st')
        with 2 have "\<exists>d\<in>set (cands st'). cfut e d"
          by (metis nth_mem)
        then show ?thesis ..
      qed
    qed
  qed
  from 1 2 3 4 show ?thesis
    by (simp add: rinv_def)
next
  assume en: "Closer \<in> set (enabled st)" and rs: "rstep e k st = Continue (st\<lparr>closed := True\<rparr>)"
  from step rs have "st' = st\<lparr>closed := True\<rparr>" by simp
  with inv enabled_Closer [OF en] show ?thesis
    by (simp add: rinv_def)
next
  assume "rstep e k st = Return (case resultCh st of Some proxy \<Rightarrow> proxy | None \<Rightarrow> '''')"
  with step show ?thesis by simp
qed

lemma rstep_Return:
  assumes inv: "rinv e S st" and step: "rstep e k st = Return r"
  shows "if \<exists>p\<in>S. available e p then r \<in> S \<and> available e r else r = ''''"
proof (rule rstep_cases [of st e k])
  assume en: "Caller \<in> set (enabled st)"
    and rs: "rstep e k st = Return (case resultCh st of Some proxy \<Rightarrow> proxy | None \<Rightarrow> '''')"
  from step rs have r: "r = (case resultCh st of Some proxy \<Rightarrow> proxy | None \<Rightarrow> '''')"
    by simp
  show ?thesis
  proof (cases "resultCh st")
    case (Some p)
    with inv r show ?thesis by (auto simp: rinv_def)
  next
    case None
    with enabled_Caller [OF en] have "closed st" by simp
    with inv have "\<forall>c\<in>set (cands st). c = CDone"
      by (simp add: rinv_def)
    then have "\<not> (\<exists>c\<in>set (cands st). cfut e c)"
      by auto
    with inv None have "\<not> (\<exists>p\<in>S. available e p)"
      by (auto simp: rinv_def)
    with None r show ?thesis by simp
  qed
qed (use step in auto)

lemma race_result:
  assumes "rinv e S st"
  shows "\<exists>r l. race e sched st = Some (r, l) \<and>
           (if \<exists>p\<in>S. available e p then r \<in> S \<and> available e r else r = '''')"
  using assms
proof (induction e sched st rule: race.induct)
  case (1 e sched st)
  show ?case
  proof (cases "rstep e (pick2 sched) st")
    case Deadlock
    then show ?thesis by (simp add: rstep_not_Deadlock)
  next
    case (Return r)
    with rstep_Return [OF "1.prems" Return] show ?thesis
      by (simp add: race.simps [of e sched st])
  next
    case (Continue st')
    from "1.IH" [OF Continue rstep_inv [OF "1.prems" Continue]] Continue show ?thesis
      by (simp add: race.simps [of e sched st])
  qed
qed

lemma rinv_start: "rinv e (set candidates) (start candidates log)"
  by (auto simp: rinv_def start_def)

lemma findAvailableProxy_race:
  assumes "configProxy = '''' \<or> \<not> available e configProxy"
  shows "\<exists>r l. findAvailableProxy e psched rsched configProxy candidates log = Some (r, l) \<and>
           (if \<exists>p\<in>set candidates. available e p then r \<in> set candidates \<and> available e r
            else r = '''')"
proof -
  define log' where
    "log' = (if configProxy \<noteq> '''' then snd (isProxyAvailable e psched configProxy log) else log)"
  from assms have "\<not> (configProxy \<noteq> '''' \<and> fst (isProxyAvailable e psched configProxy log))"
    by (auto simp: isProxyAvailable_available)
  then have eq: "findAvailableProxy e psched rsched configProxy candidates log =
      race e rsched (start candidates log')"
    unfolding findAvailableProxy_def log'_def by (simp only: if_False)
  from race_result [OF rinv_start [of e candidates log'], of rsched]
  show ?thesis
    unfolding eq .
qed

section \<open>Claims about findAvailableProxy\<close>

text \<open>
  Claim C2. When the preferred address is not empty and its probe reports it available,
  \<open>findAvailableProxy\<close> returns the preferred address, whatever the candidate list; the
  only requests issued are those of that one probe, all through the preferred address,
  and the run is the same as with an empty pool: no candidate goroutine is started.
\<close>

theorem preferred_first:
  assumes "configProxy \<noteq> ''''" and "fst (isProxyAvailable e psched configProxy log)"
  shows "\<exists>reqs.
           findAvailableProxy e psched rsched configProxy candidates log =
             Some (configProxy, log @ reqs) \<and>
           isProxyAvailable e psched configProxy log = (True, log @ reqs) \<and>
           (\<forall>(p, target)\<in>set reqs. p = configProxy) \<and>
           length reqs = length testURLs \<and>
           findAvailableProxy e psched rsched configProxy candidates log =
             findAvailableProxy e psched [] configProxy [] log"
proof -
  from assms(2) obtain u where u: "url_Parse e configProxy = Some u"
    by (auto simp: isProxyAvailable_available available_def split: option.splits)
  from isProxyAvailable_log [of e psched configProxy log] u obtain reqs
    where l: "snd (isProxyAvailable e psched configProxy log) = log @ reqs"
      and m: "mset reqs = mset (map (\<lambda>(target, expect). (configProxy, target)) testURLs)"
    by auto
  from m have "set reqs = set (map (\<lambda>(target, expect). (configProxy, target)) testURLs)"
    by (rule mset_eq_setD)
  then have only: "\<forall>(p, target)\<in>set reqs. p = configProxy"
    by auto
  from m have len: "length reqs = length testURLs"
    by (metis length_map size_mset)
  from assms(2) l have run: "isProxyAvailable e psched configProxy log = (True, log @ reqs)"
    by (cases "isProxyAvailable e psched configProxy log") simp
  from assms run
  have "findAvailableProxy e psched rs configProxy cs log = Some (configProxy, log @ reqs)"
    for rs cs
    by (simp add: findAvailableProxy_def)
  with run only len show ?thesis by simp
qed

theorem preferred_first_witness:
  "''http://127.0.0.1:10809'' \<noteq> '''' \<and>
   fst (isProxyAvailable example_env [1] ''http://127.0.0.1:10809'' []) \<and>
   (\<exists>reqs.
      findAvailableProxy example_env [1] [(0, 0), (3, 1)] ''http://127.0.0.1:10809''
        commonProxies [] = Some (''http://127.0.0.1:10809'', reqs) \<and>
      (\<forall>(p, target)\<in>set reqs. p = ''http://127.0.0.1:10809'') \<and>
      length reqs = 2)"
proof -
  have ne: "''http://127.0.0.1:10809'' \<noteq> ''''"
    by simp
  have av: "fst (isProxyAvailable example_env [1] ''http://127.0.0.1:10809'' [])"
    unfolding isProxyAvailable_available
    by (simp add: available_def example_env_def testURLs_def StatusOK_def StatusNoContent_def)
  from preferred_first [OF ne av, of "[(0, 0), (3, 1)]" commonProxies] ne av
  show ?thesis
    by (auto simp: testURLs_def)
qed

text \<open>
  Claim C3. When the preferred address does not win (it is empty or not available) and at
  least one candidate is available, then under every schedule \<open>findAvailableProxy\<close> returns
  a candidate that is available; in particular, when exactly one candidate is available,
  it returns that one.
\<close>

theorem race_returns_available:
  assumes "configProxy = '''' \<or> \<not> available e configProxy"
    and "\<exists>c\<in>set candidates. available e c"
  shows "\<exists>r l.
           findAvailableProxy e psched rsched configProxy candidates log = Some (r, l) \<and>
           r \<in> set candidates \<and> available e r \<and>
           (\<forall>c. (\<forall>c'\<in>set candidates. available e c' \<longrightarrow> c' = c) \<longrightarrow> r = c)"
proof -
  from findAvailableProxy_race [OF assms(1), of psched rsched candidates log] assms(2)
  obtain r l
    where "findAvailableProxy e psched rsched configProxy candidates log = Some (r, l)"
      and "r \<in> set candidates" and "available e r"
    by auto
  then show ?thesis by blast
qed

theorem race_returns_available_witness:
  "(''http://127.0.0.1:10808'' = '''' \<or> \<not> available example_env ''http://127.0.0.1:10808'') \<and>
   (\<exists>c\<in>set commonProxies. available example_env c) \<and>
   (\<exists>r l.
      findAvailableProxy example_env [] [(5, 0), (5, 1), (0, 0)] ''http://127.0.0.1:10808''
        commonProxies [] = Some (r, l) \<and>
      (r = ''http://127.0.0.1:7890'' \<or> r = ''http://127.0.0.1:10809''))"
proof -
  have pref: "''http://127.0.0.1:10808'' = '''' \<or> \<not> available example_env ''http://127.0.0.1:10808''"
    by (simp add: available_def example_env_def testURLs_def)
  have "available example_env ''http://127.0.0.1:7890''"
    by (simp add: available_def example_env_def testURLs_def StatusOK_def StatusNoContent_def)
  then have some: "\<exists>c\<in>set commonProxies. available example_env c"
    by (auto simp: commonProxies_def)
  have which: "r = ''http://127.0.0.1:7890'' \<or> r = ''http://127.0.0.1:10809''"
    if "r \<in> set commonProxies" and "available example_env r" for r
    using that
    by (auto simp: commonProxies_def available_def example_env_def testURLs_def
        StatusOK_def StatusNoContent_def)
  from race_returns_available [OF pref some, of "[]" "[(5, 0), (5, 1), (0, 0)]" "[]"]
  obtain r l
    where "findAvailableProxy example_env [] [(5, 0), (5, 1), (0, 0)] ''http://127.0.0.1:10808''
             commonProxies [] = Some (r, l)"
      and "r \<in> set commonProxies" and "available example_env r"
    by blast
  with which [of r] pref some show ?thesis by blast
qed

text \<open>
  Claim C4. When the preferred address does not win and no candidate is available (the
  candidate list may be empty), \<open>findAvailableProxy\<close> returns, under every schedule, and
  what it returns is the empty string.
\<close>

theorem exhaustion_returns_empty:
  assumes "configProxy = '''' \<or> \<not> available e configProxy"
    and "\<forall>c\<in>set candidates. \<not> available e c"
  shows "\<exists>l. findAvailableProxy e psched rsched configProxy candidates log = Some ('''', l)"
  using findAvailableProxy_race [OF assms(1), of psched rsched candidates log] assms(2)
  by auto

theorem exhaustion_returns_empty_witness:
  "(''http://127.0.0.1:10808'' = '''' \<or> \<not> available example_env ''http://127.0.0.1:10808'') \<and>
   \<not> available example_env ''http://127.0.0.1:8080'' \<and>
   \<not> available example_env ''http://[::1'' \<and>
   (\<exists>l. findAvailableProxy example_env [] [(1, 0)] ''http://127.0.0.1:10808''
          [''http://127.0.0.1:8080'', ''http://[::1''] [] = Some ('''', l)) \<and>
   (\<exists>l. findAvailableProxy example_env [] [] ''http://127.0.0.1:10808'' [] [] = Some ('''', l))"
proof -
  have pref: "''http://127.0.0.1:10808'' = '''' \<or> \<not> available example_env ''http://127.0.0.1:10808''"
    by (simp add: available_def example_env_def testURLs_def)
  have n1: "\<not> available example_env ''http://127.0.0.1:8080''"
    and n2: "\<not> available example_env ''http://[::1''"
    by (simp_all add: available_def example_env_def testURLs_def StatusOK_def StatusNoContent_def)
  from n1 n2
  have none: "\<forall>c\<in>set [''http://127.0.0.1:8080'', ''http://[::1'']. \<not> available example_env c"
    by simp
  have empty: "\<forall>c\<in>set ([] :: string list). \<not> available example_env c"
    by simp
  from exhaustion_returns_empty [OF pref none, of "[]" "[(1, 0)]" "[]"]
    exhaustion_returns_empty [OF pref empty, of "[]" "[]" "[]"] pref n1 n2
  show ?thesis by blast
qed

text \<open>
  Claim C9. For every preferred address, candidate list and schedule, \<open>findAvailableProxy\<close>
  returns, and the value is the empty string, the preferred address or an element of the
  candidate list; a value that is not empty is an available address, one for which every
  probe reports true.
\<close>

theorem result_from_inputs:
  "\<exists>r l. findAvailableProxy e psched rsched configProxy candidates log = Some (r, l) \<and>
     (r = '''' \<or> r = configProxy \<or> r \<in> set candidates) \<and>
     (r \<noteq> '''' \<longrightarrow> available e r \<and> (\<forall>sched log'. fst (isProxyAvailable e sched r log')))"
proof (cases "configProxy \<noteq> '''' \<and> available e configProxy")
  case True
  then have "findAvailableProxy e psched rsched configProxy candidates log =
      Some (configProxy, snd (isProxyAvailable e psched configProxy log))"
    by (simp add: findAvailableProxy_def isProxyAvailable_available)
  with True show ?thesis
    by (simp add: isProxyAvailable_available)
next
  case False
  then have "configProxy = '''' \<or> \<not> available e configProxy"
    by blast
  from findAvailableProxy_race [OF this, of psched rsched candidates log]
  obtain r l
    where run: "findAvailableProxy e psched rsched configProxy candidates log = Some (r, l)"
      and r: "if \<exists>p\<in>set candidates. available e p then r \<in> set candidates \<and> available e r
              else r = ''''"
    by blast
  from r have "r = '''' \<or> r = configProxy \<or> r \<in> set candidates"
    and "r \<noteq> '''' \<longrightarrow> available e r"
    by (auto split: if_splits)
  with run show ?thesis
    by (simp add: isProxyAvailable_available)
qed

theorem result_from_inputs_witness:
  "\<exists>r l. findAvailableProxy example_env [] [(3, 1), (5, 0)] ''http://127.0.0.1:10808''
            commonProxies [] = Some (r, l) \<and>
     (r = '''' \<or> r = ''http://127.0.0.1:10808'' \<or> r \<in> set commonProxies) \<and>
     (r \<noteq> '''' \<longrightarrow> available example_env r \<and>
        (\<forall>sched log'. fst (isProxyAvailable example_env sched r log')))"
  using result_from_inputs [of example_env "[]" "[(3, 1), (5, 0)]" "''http://127.0.0.1:10808''"
      commonProxies "[]"]
  by blast

section \<open>Claim about the extraction\<close>

lemma extract_trace:
  "\<exists>ops. trace_of (updateFrontend_extract os fs tr) = tr @ ops \<and>
     (\<forall>(n, op)\<in>set ops. within os n \<and> n \<in> Name ` set fs \<and>
        (\<forall>p. op = OpenFile p \<or> op = Copy p \<longrightarrow> p = filepath_Join os tmpDir n))"
proof (induction fs arbitrary: tr)
  case Nil
  show ?case by simp
next
  case (Cons f fs)
  define fpath where "fpath = filepath_Join os tmpDir (Name f)"
  show ?case
  proof (cases "within os (Name f)")
    case False
    then show ?thesis
      by (simp add: within_def)
  next
    case True
    define good where "good ops \<longleftrightarrow>
        (\<forall>(n, op)\<in>set ops. within os n \<and> n \<in> Name ` set (f # fs) \<and>
           (\<forall>p. op = OpenFile p \<or> op = Copy p \<longrightarrow> p = filepath_Join os tmpDir n))" for ops
    have rest: "\<exists>ops. trace_of (updateFrontend_extract os fs (tr @ pre)) = tr @ ops \<and> good ops"
      if "good pre" for pre
    proof -
      from Cons.IH [of "tr @ pre"] obtain ops
        where t: "trace_of (updateFrontend_extract os fs (tr @ pre)) = (tr @ pre) @ ops"
          and g: "\<forall>(n, op)\<in>set ops. within os n \<and> n \<in> Name ` set fs \<and>
                    (\<forall>p. op = OpenFile p \<or> op = Copy p \<longrightarrow> p = filepath_Join os tmpDir n)"
        by blast
      from g that have "good (pre @ ops)"
        by (auto simp: good_def)
      with t show ?thesis by auto
    qed
    have stop: "\<exists>ops. trace_of (Inl (err, tr @ pre)) = tr @ ops \<and> good ops"
      if "good pre" for pre err
      using that by auto
    have g1: "good [(Name f, MkdirAll fpath)]"
      and g2: "good [(Name f, MkdirAll (filepath_Dir os fpath))]"
      and g3: "good [(Name f, MkdirAll (filepath_Dir os fpath)), (Name f, OpenFile fpath)]"
      and g4: "good [(Name f, MkdirAll (filepath_Dir os fpath)), (Name f, OpenFile fpath),
                     (Name f, OpenEntry (Name f))]"
      and g5: "good [(Name f, MkdirAll (filepath_Dir os fpath)), (Name f, OpenFile fpath),
                     (Name f, OpenEntry (Name f)), (Name f, Copy fpath)]"
      using True by (simp_all add: good_def fpath_def)
    from True rest [OF g1] rest [OF g5] stop [OF g2] stop [OF g3] stop [OF g4] stop [OF g5]
    have "\<exists>ops. trace_of (updateFrontend_extract os (f # fs) tr) = tr @ ops \<and> good ops"
      by (simp add: within_def Let_def fpath_def [symmetric])
    then show ?thesis
      by (simp add: good_def)
  qed
qed

lemma extract_aborts:
  "\<exists>g\<in>set fs. \<not> within os (Name g) \<Longrightarrow> \<exists>err tr'. updateFrontend_extract os fs tr = Inl (err, tr')"
proof (induction fs arbitrary: tr)
  case Nil
  then show ?case by simp
next
  case (Cons f fs)
  show ?case
  proof (cases "within os (Name f)")
    case False
    then show ?thesis
      by (simp add: within_def)
  next
    case True
    with Cons.prems have "\<exists>g\<in>set fs. \<not> within os (Name g)"
      by auto
    from Cons.IH [OF this] True show ?thesis
      by (simp add: within_def Let_def)
  qed
qed

text \<open>
  Claim C10. Every entry's name is joined to the temporary directory and the joined path
  is checked to start with the cleaned directory and the separator, before anything is
  done for the entry: every operation of the extraction is for an entry that passes the
  check, and files are created and written only at such joined paths. When the archive
  has an entry whose joined path fails the check, the program aborts, having attempted no
  operation for that entry.
\<close>

theorem traversal_aborts:
  assumes "g \<in> set fs" and "\<not> within os (Name g)"
  shows "\<exists>err ops. updateFrontend_extract os fs tr = Inl (err, tr @ ops) \<and>
           (\<forall>op. (Name g, op) \<notin> set ops) \<and>
           (\<forall>(n, op)\<in>set ops. within os n \<and>
              (\<forall>p. op = OpenFile p \<or> op = Copy p \<longrightarrow>
                 p = filepath_Join os tmpDir n \<and>
                 HasPrefix p (filepath_Clean os tmpDir @ [PathSeparator os])))"
proof -
  from assms have "\<exists>g\<in>set fs. \<not> within os (Name g)"
    by blast
  from extract_aborts [OF this, of tr] obtain err tr'
    where r: "updateFrontend_extract os fs tr = Inl (err, tr')"
    by blast
  from extract_trace [of os fs tr] r obtain ops
    where t: "tr' = tr @ ops"
      and g: "\<forall>(n, op)\<in>set ops. within os n \<and> n \<in> Name ` set fs \<and>
                (\<forall>p. op = OpenFile p \<or> op = Copy p \<longrightarrow> p = filepath_Join os tmpDir n)"
    by auto
  from g assms(2) have "\<forall>op. (Name g, op) \<notin> set ops"
    by auto
  moreover from g have "\<forall>(n, op)\<in>set ops. within os n \<and>
      (\<forall>p. op = OpenFile p \<or> op = Copy p \<longrightarrow>
         p = filepath_Join os tmpDir n \<and>
         HasPrefix p (filepath_Clean os tmpDir @ [PathSeparator os]))"
    by (auto simp: within_def)
  ultimately show ?thesis
    using r t by blast
qed

theorem traversal_aborts_witness:
  "\<lparr>Name = ''dist/../../evil.sh'', IsDir = False\<rparr> \<in> set example_archive \<and>
   \<not> within unix_os ''dist/../../evil.sh'' \<and>
   (\<exists>err ops. updateFrontend_extract unix_os example_archive [] = Inl (err, ops) \<and>
      (\<forall>op. (''dist/../../evil.sh'', op) \<notin> set ops) \<and>
      (\<forall>(n, op)\<in>set ops. within unix_os n \<and>
         (\<forall>p. op = OpenFile p \<or> op = Copy p \<longrightarrow>
            p = filepath_Join unix_os tmpDir n \<and>
            HasPrefix p (filepath_Clean unix_os tmpDir @ [PathSeparator unix_os]))))"
proof -
  have m: "\<lparr>Name = ''dist/../../evil.sh'', IsDir = False\<rparr> \<in> set example_archive"
    by (simp add: example_archive_def)
  have "filepath_Join unix_os tmpDir ''dist/../../evil.sh'' = ''evil.sh''"
    by (simp add: unix_os_def unix_Join_def unix_Clean_def tmpDir_def)
  moreover have "filepath_Clean unix_os tmpDir = ''dist_temp''"
    by (simp add: unix_os_def unix_Clean_def tmpDir_def)
  ultimately have w: "\<not> within unix_os (Name \<lparr>Name = ''dist/../../evil.sh'', IsDir = False\<rparr>)"
    by (simp add: within_def HasPrefix_def unix_os_def)
  from traversal_aborts [OF m w, of "[]"]
  have "\<exists>err ops. updateFrontend_extract unix_os example_archive [] = Inl (err, ops) \<and>
      (\<forall>op. (''dist/../../evil.sh'', op) \<notin> set ops) \<and>
      (\<forall>(n, op)\<in>set ops. within unix_os n \<and>
         (\<forall>p. op = OpenFile p \<or> op = Copy p \<longrightarrow>
            p = filepath_Join unix_os tmpDir n \<and>
            HasPrefix p (filepath_Clean unix_os tmpDir @ [PathSeparator unix_os])))"
    by simp
  with m w show ?thesis
    by simp
qed

section \<open>Concrete runs\<close>

text \<open>
  The winner of the race depends on the schedule: with the preferred address
  \<^verbatim>\<open>http://127.0.0.1:10808\<close> unavailable and two candidates available, the schedule that
  always runs the first enabled thread returns the first available candidate, and a
  schedule that runs the last candidate's goroutine to its end first returns the last one.
\<close>

lemma winner_depends_on_schedule:
  "fst (the (findAvailableProxy example_env [] [] ''http://127.0.0.1:10808'' commonProxies [])) =
     ''http://127.0.0.1:7890''"
  "fst (the (findAvailableProxy example_env []
               [(5, 0), (5, 0), (5, 0), (5, 0), (5, 0), (5, 0), (5, 0)]
               ''http://127.0.0.1:10808'' commonProxies [])) =
     ''http://127.0.0.1:10809''"
  by code_simp+

text \<open>
  The extraction of the example archive stops at the entry that leaves the temporary
  directory, after the operations for the two entries before it.
\<close>

lemma example_archive_run:
  "updateFrontend_extract unix_os example_archive [] =
     Inl (IllegalPath ''evil.sh'',
          [(''dist/'', MkdirAll ''dist_temp/dist''),
           (''dist/index.html'', MkdirAll ''dist_temp/dist''),
           (''dist/index.html'', OpenFile ''dist_temp/dist/index.html''),
           (''dist/index.html'', OpenEntry ''dist/index.html''),
           (''dist/index.html'', Copy ''dist_temp/dist/index.html'')])"
  by code_simp

end
